theory Spec2Isabelle
  imports Main "HOL-Library.Word"
begin

unbundle bit_operations_syntax

section \<open>BeagleTrinket: IR proximity alert on an ATtiny85\<close>

text \<open>
  The sketch \<^verbatim>\<open>BeagleTrinket.ino\<close> runs on an Adafruit Trinket/Gemma (ATtiny85, avr-gcc).
  On that target \<^verbatim>\<open>int\<close> and \<^verbatim>\<open>unsigned int\<close> are 16 bits wide, \<^verbatim>\<open>long\<close> is 32 bits,
  and \<^verbatim>\<open>uint16_t\<close> is \<^verbatim>\<open>unsigned int\<close>. The machine integers of the sketch are words of
  the declared width; arithmetic on them wraps around.
\<close>

type_synonym u8 = "8 word"
type_synonym u16 = "16 word"
type_synonym u32 = "32 word"

subsection \<open>Configuration constants (the \<^verbatim>\<open>#define\<close>s)\<close>

definition IRpin :: nat where "IRpin = 2"
definition LEDpin :: nat where "LEDpin = 1"
definition SPEAKERPIN :: nat where "SPEAKERPIN = 4"

definition MAXPULSE :: nat where "MAXPULSE = 5000"
definition NUMPULSES :: nat where "NUMPULSES = 100"
definition RESOLUTION :: nat where "RESOLUTION = 2"
definition sensitivity :: nat where "sensitivity = 6"
definition sleepTimeout :: nat where "sleepTimeout = 4000"

subsection \<open>Global state\<close>

text \<open>
  The peripherals switched by the \<^verbatim>\<open>power_*\<close> macros, and the two calls whose effect
  leaves the program: the blocking tone generator \<^verbatim>\<open>beep\<close> and the halt
  \<^verbatim>\<open>sleep_mode()\<close>. Both are recorded in the order in which they happen.
\<close>

datatype peripheral = ADC | USI | TIMER0 | TIMER1

datatype event = Beep nat nat nat | SleepMode

text \<open>
  The globals of the sketch and the registers it writes. \<^verbatim>\<open>pulses[i][0]\<close> is
  \<open>fst (pulses d ! i)\<close>, \<^verbatim>\<open>pulses[i][1]\<close> is \<open>snd (pulses d ! i)\<close>; the array has 100 rows.
  \<open>GIMSK_PCIE\<close> is the pin-change interrupt enable bit of \<^verbatim>\<open>GIMSK\<close>, the only bit the
  sketch ever sets there; \<open>powered_down\<close> lists the peripherals switched off.
\<close>

record device =
  pulses :: "(u16 \<times> u16) list"
  currentpulse :: u16
  irCode :: u32
  prescalarBits :: u8
  triggerTimer :: u32
  trigger :: u8
  TCCR1 :: u8
  GIMSK_PCIE :: bool
  LED :: bool
  powered_down :: "peripheral list"
  events :: "event list"

text \<open>The globals as their C initialisers leave them, peripherals on, nothing logged.\<close>

definition initial :: device where
  "initial = \<lparr> pulses = replicate 100 (0, 0), currentpulse = 0, irCode = 0,
      prescalarBits = 1, triggerTimer = 0, trigger = 0, TCCR1 = 0,
      GIMSK_PCIE = False, LED = False, powered_down = [], events = [] \<rparr>"

subsection \<open>\<^verbatim>\<open>listenForIR\<close>: the pulse sampler\<close>

text \<open>
  The sensor is a stream of levels: \<open>pin k\<close> is the value of
  \<^verbatim>\<open>IRpin_PIN & _BV(IRpin)\<close> at the \<open>k\<close>-th evaluation of a loop condition since the
  call (counting from 0). The two inner \<^verbatim>\<open>while\<close> loops are the two phases of one
  recursive function; \<open>n\<close> is the local counter of the running phase (\<^verbatim>\<open>highpulse\<close> in
  the high loop, \<^verbatim>\<open>lowpulse\<close> in the low loop); both locals are reset to 0 at the top of
  the outer \<^verbatim>\<open>while (1)\<close>. The function may poll forever, which is the value \<open>None\<close>.

  A store \<^verbatim>\<open>pulses[currentpulse][c] = \<dots>\<close> with \<open>currentpulse\<close> outside the array is
  undefined behaviour in C; the model stops there with \<open>OutOfBounds\<close> and the index.
  \<open>Returned k d\<close> is a \<^verbatim>\<open>return currentpulse\<close> after \<open>k\<close> polls, in the state \<open>d\<close>.
\<close>

datatype phase = HighLoop | LowLoop

datatype outcome = Returned nat device | OutOfBounds nat

text \<open>
  \<^verbatim>\<open>pulses[currentpulse][0] = highpulse;\<close> and
  \<^verbatim>\<open>pulses[currentpulse][1] = lowpulse; currentpulse++;\<close>, for an index inside the array.
\<close>

definition store_high :: "u16 \<Rightarrow> device \<Rightarrow> device" where
  "store_high highpulse d =
     (let i = unat (currentpulse d)
      in d\<lparr>pulses := (pulses d)[i := (highpulse, snd (pulses d ! i))]\<rparr>)"

definition store_low :: "u16 \<Rightarrow> device \<Rightarrow> device" where
  "store_low lowpulse d =
     (let i = unat (currentpulse d)
      in d\<lparr>pulses := (pulses d)[i := (fst (pulses d ! i), lowpulse)],
           currentpulse := currentpulse d + 1\<rparr>)"

partial_function (option) listen ::
  "(nat \<Rightarrow> bool) \<Rightarrow> phase \<Rightarrow> nat \<Rightarrow> u16 \<Rightarrow> device \<Rightarrow> outcome option" where
  "listen pin ph k n d =
    (case ph of
       HighLoop \<Rightarrow>
         if pin k then
           let highpulse = n + 1 in
           if (MAXPULSE \<le> unat highpulse \<and> currentpulse d \<noteq> 0)
              \<or> unat (currentpulse d) = NUMPULSES
           then Some (Returned (k + 1) d)
           else listen pin HighLoop (k + 1) highpulse d
         else
           if unat (currentpulse d) < length (pulses d)
           then listen pin LowLoop (k + 1) 0 (store_high n d)
           else Some (OutOfBounds (unat (currentpulse d)))
     | LowLoop \<Rightarrow>
         if \<not> pin k then
           let lowpulse = n + 1 in
           if (MAXPULSE \<le> unat lowpulse \<and> currentpulse d \<noteq> 0)
              \<or> unat (currentpulse d) = NUMPULSES
           then Some (Returned (k + 1) d)
           else listen pin LowLoop (k + 1) lowpulse d
         else
           if unat (currentpulse d) < length (pulses d)
           then listen pin HighLoop (k + 1) 0 (store_low n d)
           else Some (OutOfBounds (unat (currentpulse d))))"

declare listen.simps [code]

definition listenForIR :: "(nat \<Rightarrow> bool) \<Rightarrow> device \<Rightarrow> outcome option" where
  "listenForIR pin d = listen pin HighLoop 0 0 (d\<lparr>currentpulse := 0\<rparr>)"

subsection \<open>\<^verbatim>\<open>loop\<close>: decode, trigger counter, alert\<close>

text \<open>
  One pass of the \<^verbatim>\<open>for\<close> loop. \<^verbatim>\<open>pulses[i][0] * RESOLUTION\<close> multiplies an
  \<^verbatim>\<open>unsigned int\<close> by an \<^verbatim>\<open>int\<close>: the product is a 16-bit unsigned value, and both
  comparisons are unsigned.
\<close>

definition pulse_bit :: "u16 \<Rightarrow> u32" where
  "pulse_bit t =
     (if 0 < t * word_of_nat RESOLUTION \<and> t * word_of_nat RESOLUTION < 500 then 0 else 1)"

definition decode_step :: "nat \<Rightarrow> device \<Rightarrow> device" where
  "decode_step i d = d\<lparr>irCode := push_bit 1 (irCode d) OR pulse_bit (fst (pulses d ! i))\<rparr>"

definition decode :: "device \<Rightarrow> device" where
  "decode d = fold decode_step [0..<32] d"

text \<open>\<^verbatim>\<open>beep\<close> is the external tone generator: the call is logged.\<close>

definition beep :: "nat \<Rightarrow> nat \<Rightarrow> nat \<Rightarrow> device \<Rightarrow> device" where
  "beep speakerPin frequencyInHertz timeInMilliseconds d =
     d\<lparr>events := events d @ [Beep speakerPin frequencyInHertz timeInMilliseconds]\<rparr>"

text \<open>
  The \<^verbatim>\<open>if (irCode==0xFFFFFFFF)\<close> block; \<open>now\<close> is what \<^verbatim>\<open>millis()\<close> returns there.
\<close>

definition loop_match :: "u32 \<Rightarrow> device \<Rightarrow> device" where
  "loop_match now d =
     (if irCode d = 0xFFFFFFFF then
        let d1 = d\<lparr>triggerTimer := now\<rparr>;
            d2 = d1\<lparr>trigger := trigger d1 + 2\<rparr>
        in if sensitivity \<le> unat (trigger d2) then beep SPEAKERPIN 10000 500 d2 else d2
      else d)"

text \<open>The final \<^verbatim>\<open>if (trigger >= 1) trigger--\<close>.\<close>

definition loop_decay :: "device \<Rightarrow> device" where
  "loop_decay d = (if 1 \<le> unat (trigger d) then d\<lparr>trigger := trigger d - 1\<rparr> else d)"

text \<open>
  \<^verbatim>\<open>irCode=listenForIR()\<close> puts the returned pulse count into the accumulator; the
  \<^verbatim>\<open>for\<close> loop follows.
\<close>

definition decoded :: "device \<Rightarrow> device" where
  "decoded d = decode (d\<lparr>irCode := ucast (currentpulse d)\<rparr>)"

text \<open>Everything of \<^verbatim>\<open>loop\<close> after the capture has returned.\<close>

definition after_capture :: "u32 \<Rightarrow> device \<Rightarrow> device" where
  "after_capture now d = loop_decay (loop_match now (decoded d))"

definition loop :: "(nat \<Rightarrow> bool) \<Rightarrow> u32 \<Rightarrow> device \<Rightarrow> outcome option" where
  "loop pin now d =
     (case listenForIR pin d of
        None \<Rightarrow> None
      | Some (OutOfBounds i) \<Rightarrow> Some (OutOfBounds i)
      | Some (Returned k d1) \<Rightarrow> Some (Returned k (after_capture now d1)))"

subsection \<open>Power management: \<^verbatim>\<open>naptime\<close> and the timer interrupt\<close>

text \<open>
  \<^verbatim>\<open>naptime\<close>, one binding per statement that changes a field of the state, in the order
  of the source: the timer control register, the heartbeat LED, the counter, the
  pin-change interrupt, \<^verbatim>\<open>power_all_disable()\<close>, the halt \<^verbatim>\<open>sleep_mode()\<close> (which returns
  when an edge on the sensor pin wakes the core; the handler \<^verbatim>\<open>ISR(PCINT0_vect)\<close> is
  empty), and the statements that restore the peripherals.
\<close>

definition naptime :: "device \<Rightarrow> device" where
  "naptime d =
     (let d1 = d\<lparr>TCCR1 := 0x80 OR prescalarBits d\<rparr>;
          d2 = d1\<lparr>LED := False\<rparr>;
          d3 = d2\<lparr>trigger := 0\<rparr>;
          d4 = d3\<lparr>GIMSK_PCIE := True\<rparr>;
          d5 = d4\<lparr>powered_down := [ADC, USI, TIMER0, TIMER1]\<rparr>;
          d6 = d5\<lparr>events := events d5 @ [SleepMode]\<rparr>;
          d7 = d6\<lparr>GIMSK_PCIE := False\<rparr>;
          d8 = d7\<lparr>powered_down := removeAll TIMER0 (powered_down d7)\<rparr>;
          d9 = d8\<lparr>powered_down := removeAll TIMER1 (powered_down d8)\<rparr>;
          d10 = d9\<lparr>TCCR1 := 0x90 OR prescalarBits d9\<rparr>
      in d10\<lparr>powered_down := removeAll USI (powered_down d10)\<rparr>)"

text \<open>
  \<^verbatim>\<open>ISR(TIMER1_COMPA_vect)\<close>: \<open>now\<close> is the value of \<^verbatim>\<open>millis()\<close> in the test, \<open>woken\<close>
  the value of the second \<^verbatim>\<open>millis()\<close>, read after \<^verbatim>\<open>naptime\<close> has returned. The
  subtraction is on \<^verbatim>\<open>unsigned long\<close> and the comparison unsigned.
\<close>

definition TIMER1_COMPA :: "u32 \<Rightarrow> u32 \<Rightarrow> device \<Rightarrow> device" where
  "TIMER1_COMPA now woken d =
     (if word_of_nat sleepTimeout \<le> now - triggerTimer d
      then (naptime d)\<lparr>triggerTimer := woken\<rparr>
      else d)"

subsection \<open>Inputs and notions used in the statements\<close>

text \<open>The level a phase of the sampler is measuring, and the test that ends a session.\<close>

definition level :: "phase \<Rightarrow> bool" where
  "level ph = (ph = HighLoop)"

definition timed_out :: "u16 \<Rightarrow> device \<Rightarrow> bool" where
  "timed_out x d \<longleftrightarrow>
     (MAXPULSE \<le> unat x \<and> currentpulse d \<noteq> 0) \<or> unat (currentpulse d) = NUMPULSES"

text \<open>A buffer whose every high duration is \<open>t\<close> ticks, with accumulator \<open>acc\<close>.\<close>

definition uniform_sample :: "u16 \<Rightarrow> u32 \<Rightarrow> device" where
  "uniform_sample t acc = initial\<lparr>pulses := replicate 100 (t, 0), irCode := acc\<rparr>"

text \<open>The sampler writes the buffer and its index only: every other field is as before.\<close>

definition untouched :: "device \<Rightarrow> device \<Rightarrow> bool" where
  "untouched d d' \<longleftrightarrow>
     irCode d' = irCode d \<and> prescalarBits d' = prescalarBits d \<and>
     triggerTimer d' = triggerTimer d \<and> trigger d' = trigger d \<and> TCCR1 d' = TCCR1 d \<and>
     GIMSK_PCIE d' = GIMSK_PCIE d \<and> LED d' = LED d \<and> powered_down d' = powered_down d \<and>
     events d' = events d"

text \<open>
  Sensor inputs: a line held high for ever; a line that changes at every poll (low at
  poll 0); a line that reads low once and is high from then on; a line that reads low,
  then high, and is low from then on; a high pulse of 6000 polls followed by a low pulse
  of 5500 polls, high from then on; a line that idles high for 32769 polls, reads low at
  one poll and is high from then on.
\<close>

definition held_high :: "nat \<Rightarrow> bool" where
  "held_high k = True"

definition alternating :: "nat \<Rightarrow> bool" where
  "alternating k = odd k"

definition low_then_high :: "nat \<Rightarrow> bool" where
  "low_then_high k = (0 < k)"

definition pair_then_low :: "nat \<Rightarrow> bool" where
  "pair_then_low k = (k = 1)"

definition long_pair :: "nat \<Rightarrow> bool" where
  "long_pair k = (k < 6000 \<or> 11500 \<le> k)"

definition idle_then_burst :: "nat \<Rightarrow> bool" where
  "idle_then_burst k = (k \<noteq> 32769)"

text \<open>
  Consecutive passes of \<^verbatim>\<open>loop\<close>, each given by the code its capture decoded to and by
  the clock value a match would read: the part of the pass that touches the counter.
\<close>

fun cycles :: "(u32 \<times> u32) list \<Rightarrow> device \<Rightarrow> device" where
  "cycles [] d = d"
| "cycles ((code, now) # cs) d =
     cycles cs (loop_decay (loop_match now (d\<lparr>irCode := code\<rparr>)))"

text \<open>How often the device has gone to sleep.\<close>

definition sleeps :: "device \<Rightarrow> nat" where
  "sleeps d = count_list (events d) SleepMode"

section \<open>The decoder\<close>

lemma pulse_bit_wrapped:
  "pulse_bit t =
     (if 0 < (unat t * RESOLUTION) mod 65536 \<and> (unat t * RESOLUTION) mod 65536 < 500
      then 0 else 1)"
  unfolding pulse_bit_def RESOLUTION_def
  by (simp add: word_less_nat_alt unat_word_ariths)

text \<open>Below 32768 ticks the product does not wrap and the rule is the one on microseconds.\<close>

lemma pulse_bit_small:
  "unat t < 32768 \<Longrightarrow>
     pulse_bit t = (if 0 < unat t * RESOLUTION \<and> unat t * RESOLUTION < 500 then 0 else 1)"
  unfolding pulse_bit_wrapped RESOLUTION_def by simp

lemma pulse_bit_cases: "pulse_bit t = 0 \<or> pulse_bit t = 1"
  by (simp add: pulse_bit_def)

lemma pulses_decode_step [simp]: "pulses (decode_step i d) = pulses d"
  by (simp add: decode_step_def)

lemma pulses_fold_decode_step [simp]: "pulses (fold decode_step is d) = pulses d"
  by (induction "is" arbitrary: d) simp_all

lemma irCode_decode_step:
  "irCode (decode_step i d) = push_bit 1 (irCode d) OR pulse_bit (fst (pulses d ! i))"
  by (simp add: decode_step_def)

lemma bit_shift_or:
  fixes w b :: u32
  assumes "b = 0 \<or> b = 1"
  shows "bit (push_bit 1 w OR b) j \<longleftrightarrow> (if j = 0 then b = 1 else j < 32 \<and> bit w (j - 1))"
proof -
  have sh: "bit (push_bit 1 w) j \<longleftrightarrow> 1 \<le> j \<and> j < 32 \<and> bit w (j - 1)"
    unfolding bit_push_bit_iff by (auto simp: possible_bit_word)
  have b: "bit b j \<longleftrightarrow> b = 1 \<and> j = 0"
    using assms by (auto simp: bit_1_iff)
  show ?thesis
    unfolding bit_or_iff sh b by auto
qed

text \<open>
  After \<open>m\<close> passes the low \<open>m\<close> bits of the accumulator are the bits of the first \<open>m\<close>
  pulses, most recent lowest, and what was there before has moved up by \<open>m\<close>.
\<close>

lemma bit_fold_decode:
  "bit (irCode (fold decode_step [0..<m] d)) j \<longleftrightarrow>
     j < 32 \<and> (if j < m then pulse_bit (fst (pulses d ! (m - 1 - j))) = 1
               else bit (irCode d) (j - m))"
proof (induction m arbitrary: j)
  case 0
  then show ?case by (auto dest: bit_imp_le_length)
next
  case (Suc m)
  have "bit (irCode (fold decode_step [0..<Suc m] d)) j \<longleftrightarrow>
          (if j = 0 then pulse_bit (fst (pulses d ! m)) = 1
           else j < 32 \<and> bit (irCode (fold decode_step [0..<m] d)) (j - 1))"
    unfolding upt_Suc_append [OF le0] fold_append comp_def fold_simps irCode_decode_step
      bit_shift_or [OF pulse_bit_cases] by simp
  also have "\<dots> \<longleftrightarrow> j < 32 \<and>
      (if j < Suc m then pulse_bit (fst (pulses d ! (Suc m - 1 - j))) = 1
       else bit (irCode d) (j - Suc m))"
  proof (cases j)
    case 0
    then show ?thesis by simp
  next
    case (Suc j')
    then show ?thesis by (auto simp: Suc.IH)
  qed
  finally show ?case .
qed

text \<open>Pulse \<open>i\<close> of the buffer decides bit \<open>31 - i\<close> of the code, whatever the accumulator held.\<close>

lemma bit_decode:
  "bit (irCode (decode d)) j \<longleftrightarrow> j < 32 \<and> pulse_bit (fst (pulses d ! (31 - j))) = 1"
  unfolding decode_def using bit_fold_decode [of 32 d j] by auto

lemma decode_all0:
  assumes "\<forall>i<32. pulse_bit (fst (pulses d ! i)) = 0"
  shows "irCode (decode d) = 0"
  by (rule bit_eqI) (simp add: bit_decode assms)

lemma decode_all1:
  assumes "\<forall>i<32. pulse_bit (fst (pulses d ! i)) = 1"
  shows "irCode (decode d) = 0xFFFFFFFF"
proof -
  have "irCode (decode d) = - 1"
    by (rule bit_eqI) (auto simp: bit_decode assms dest: bit_imp_le_length)
  then show ?thesis by simp
qed

text \<open>
  C4. A sample whose first 32 high durations all are 100 microseconds (50 ticks) decodes to
  \<open>0x00000000\<close>, one whose first 32 high durations all are 600 microseconds (300 ticks)
  decodes to \<open>0xFFFFFFFF\<close>, for every value the accumulator \<open>irCode\<close> holds before the loop.
\<close>

theorem decode_uniform:
  assumes "\<forall>i<32. fst (pulses d ! i) = t"
  shows "(unat t * RESOLUTION = 100 \<longrightarrow> irCode (decode d) = 0x00000000) \<and>
         (unat t * RESOLUTION = 600 \<longrightarrow> irCode (decode d) = 0xFFFFFFFF)"
proof (intro conjI impI)
  assume "unat t * RESOLUTION = 100"
  then have "pulse_bit t = 0" by (simp add: pulse_bit_wrapped)
  with assms show "irCode (decode d) = 0x00000000" using decode_all0 [of d] by simp
next
  assume "unat t * RESOLUTION = 600"
  then have "pulse_bit t = 1" by (simp add: pulse_bit_wrapped)
  with assms show "irCode (decode d) = 0xFFFFFFFF" using decode_all1 [of d] by simp
qed

theorem decode_uniform_witness:
  "irCode (decode (uniform_sample 50 0xDEADBEEF)) = 0x00000000 \<and>
   irCode (decode (uniform_sample 300 0xDEADBEEF)) = 0xFFFFFFFF"
  using decode_uniform [of "uniform_sample 50 0xDEADBEEF" 50]
    decode_uniform [of "uniform_sample 300 0xDEADBEEF" 300]
  by (simp add: uniform_sample_def RESOLUTION_def)

section \<open>The trigger counter and the alert\<close>

lemma decode_step_keeps [simp]:
  "trigger (decode_step i d) = trigger d"
  "events (decode_step i d) = events d"
  "triggerTimer (decode_step i d) = triggerTimer d"
  by (simp_all add: decode_step_def)

lemma fold_decode_step_keeps [simp]:
  "trigger (fold decode_step is d) = trigger d"
  "events (fold decode_step is d) = events d"
  "triggerTimer (fold decode_step is d) = triggerTimer d"
  by (induction "is" arbitrary: d) simp_all

lemma decoded_keeps [simp]:
  "trigger (decoded d) = trigger d"
  "events (decoded d) = events d"
  "triggerTimer (decoded d) = triggerTimer d"
  "pulses (decoded d) = pulses d"
  by (simp_all add: decoded_def decode_def)

lemma trigger_loop_match:
  "trigger (loop_match now d) = (if irCode d = 0xFFFFFFFF then trigger d + 2 else trigger d)"
  by (simp add: loop_match_def Let_def beep_def)

lemma events_loop_match:
  "events (loop_match now d) =
     (if irCode d = 0xFFFFFFFF \<and> sensitivity \<le> unat (trigger d + 2)
      then events d @ [Beep SPEAKERPIN 10000 500] else events d)"
  by (simp add: loop_match_def Let_def beep_def)

lemma irCode_loop_match [simp]: "irCode (loop_match now d) = irCode d"
  by (simp add: loop_match_def Let_def beep_def)

lemma events_loop_decay [simp]: "events (loop_decay d) = events d"
  by (simp add: loop_decay_def)

lemma irCode_loop_decay [simp]: "irCode (loop_decay d) = irCode d"
  by (simp add: loop_decay_def)

lemma pulses_after_capture [simp]: "pulses (after_capture now d) = pulses d"
  by (simp add: after_capture_def loop_decay_def loop_match_def Let_def beep_def)

text \<open>The decrement stops at 0: on naturals it is the truncated subtraction.\<close>

lemma trigger_loop_decay: "unat (trigger (loop_decay d)) = unat (trigger d) - 1"
  by (simp add: loop_decay_def unat_sub word_le_nat_alt)

text \<open>
  C5. In a pass of \<^verbatim>\<open>loop\<close> the alert fires (one call \<^verbatim>\<open>beep(SPEAKERPIN,10000,500)\<close> is
  made) if and only if the decoded code is \<open>0xFFFFFFFF\<close> and the counter, after the increment
  by 2 and before the decrement of that pass, is at least \<open>sensitivity\<close>; otherwise no call
  is made. On a match the counter after the increment is the old value plus 2, and from
  the value 4 one matching pass fires the alert at the value 6.
\<close>

theorem alert_iff:
  "(events (after_capture now d) = events d @ [Beep SPEAKERPIN 10000 500]
      \<longleftrightarrow> irCode (decoded d) = 0xFFFFFFFF
          \<and> sensitivity \<le> unat (trigger (loop_match now (decoded d))))
   \<and> (events (after_capture now d) \<noteq> events d @ [Beep SPEAKERPIN 10000 500]
      \<longleftrightarrow> events (after_capture now d) = events d)
   \<and> (irCode (decoded d) = 0xFFFFFFFF \<longrightarrow>
        trigger (loop_match now (decoded d)) = trigger d + 2)
   \<and> (irCode (decoded d) = 0xFFFFFFFF \<and> trigger d = 4 \<longrightarrow>
        unat (trigger (loop_match now (decoded d))) = 6
        \<and> events (after_capture now d) = events d @ [Beep SPEAKERPIN 10000 500])"
proof -
  let ?fired = "irCode (decoded d) = 0xFFFFFFFF \<and> sensitivity \<le> unat (trigger d + 2)"
  have log: "events (after_capture now d)
      = (if ?fired then events d @ [Beep SPEAKERPIN 10000 500] else events d)"
    by (simp add: after_capture_def events_loop_match)
  have counter: "trigger (loop_match now (decoded d))
      = (if irCode (decoded d) = 0xFFFFFFFF then trigger d + 2 else trigger d)"
    by (simp add: trigger_loop_match)
  have six: "unat (4 + 2 :: u8) = 6" "sensitivity \<le> 6"
    by (simp_all add: sensitivity_def)
  show ?thesis
    unfolding log counter using six by auto
qed

theorem alert_iff_witness:
  "unat (trigger (loop_match 1234 (decoded ((uniform_sample 300 0)\<lparr>trigger := 4\<rparr>)))) = 6
   \<and> events (after_capture 1234 ((uniform_sample 300 0)\<lparr>trigger := 4\<rparr>))
       = [Beep SPEAKERPIN 10000 500]"
proof -
  have "irCode (decoded ((uniform_sample 300 0)\<lparr>trigger := 4\<rparr>)) = 0xFFFFFFFF"
    unfolding decoded_def
    by (rule decode_all1) (simp add: uniform_sample_def pulse_bit_def RESOLUTION_def)
  then show ?thesis
    using alert_iff [of 1234 "(uniform_sample 300 0)\<lparr>trigger := 4\<rparr>"]
    by (simp add: uniform_sample_def initial_def)
qed

lemma trigger_cycle_nonmatching:
  "code \<noteq> 0xFFFFFFFF \<Longrightarrow>
     unat (trigger (loop_decay (loop_match now (d\<lparr>irCode := code\<rparr>)))) = unat (trigger d) - 1"
  by (simp add: trigger_loop_decay trigger_loop_match)

lemma trigger_cycles_nonmatching:
  assumes "\<forall>c\<in>set cs. fst c \<noteq> 0xFFFFFFFF"
  shows "unat (trigger (cycles cs d)) = unat (trigger d) - length cs"
  using assms
proof (induction cs arbitrary: d)
  case Nil
  then show ?case by simp
next
  case (Cons c cs)
  obtain code now where c: "c = (code, now)" by (cases c)
  with Cons.prems have ne: "code \<noteq> 0xFFFFFFFF" by simp
  have "unat (trigger (cycles (c # cs) d))
      = unat (trigger (loop_decay (loop_match now (d\<lparr>irCode := code\<rparr>)))) - length cs"
    using Cons.IH Cons.prems by (simp add: c)
  also have "\<dots> = unat (trigger d) - length (c # cs)"
    unfolding trigger_cycle_nonmatching [OF ne] by simp
  finally show ?case .
qed

text \<open>
  C6. From every counter value \<open>v\<close>, \<open>N\<close> consecutive passes whose decoded code is not the
  target leave the counter at exactly \<open>max(0, v - N)\<close>; it never goes below 0.
\<close>

theorem nonmatching_cycles_decay:
  assumes "\<forall>c\<in>set cs. fst c \<noteq> 0xFFFFFFFF"
  shows "int (unat (trigger (cycles cs d))) = max 0 (int (unat (trigger d)) - int (length cs))"
proof -
  have "int (a - l) = max 0 (int a - int l)" for a l :: nat
    by (simp add: max_def of_nat_diff)
  then show ?thesis
    unfolding trigger_cycles_nonmatching [OF assms] .
qed

theorem nonmatching_cycles_decay_witness:
  "int (unat (trigger (cycles [(0, 10), (5, 20), (0x7FFFFFFF, 30)] (initial\<lparr>trigger := 2\<rparr>))))
     = max 0 (2 - 3)
   \<and> int (unat (trigger (cycles [(0, 10)] (initial\<lparr>trigger := 7\<rparr>)))) = max 0 (7 - 1)"
  using nonmatching_cycles_decay [of "[(0, 10), (5, 20), (0x7FFFFFFF, 30)]" "initial\<lparr>trigger := 2\<rparr>"]
    nonmatching_cycles_decay [of "[(0, 10)]" "initial\<lparr>trigger := 7\<rparr>"]
  by (simp add: initial_def)

text \<open>While the counter is below 254, a matching pass adds 2 and takes 1 away.\<close>

lemma trigger_cycle_matching:
  assumes "unat (trigger d) < 254"
  shows "unat (trigger (loop_decay (loop_match now (d\<lparr>irCode := 0xFFFFFFFF\<rparr>))))
           = unat (trigger d) + 1"
proof -
  have "unat (trigger d + 2) = unat (trigger d) + 2"
    using assms by (simp add: unat_word_ariths)
  then show ?thesis by (simp add: trigger_loop_decay trigger_loop_match)
qed

lemma trigger_cycles_matching:
  assumes "\<forall>c\<in>set cs. fst c = 0xFFFFFFFF" and "unat (trigger d) + length cs \<le> 254"
  shows "unat (trigger (cycles cs d)) = unat (trigger d) + length cs"
  using assms
proof (induction cs arbitrary: d)
  case Nil
  then show ?case by simp
next
  case (Cons c cs)
  obtain now where c: "c = (0xFFFFFFFF, now)" using Cons.prems(1) by (cases c) auto
  let ?d = "loop_decay (loop_match now (d\<lparr>irCode := 0xFFFFFFFF\<rparr>))"
  have lt: "unat (trigger d) < 254" using Cons.prems(2) by simp
  have "unat (trigger (cycles cs ?d)) = unat (trigger ?d) + length cs"
    using Cons.prems lt by (intro Cons.IH) (simp_all add: trigger_cycle_matching)
  then show ?case by (simp add: c trigger_cycle_matching [OF lt])
qed

lemma cycles_append: "cycles (cs @ cs') d = cycles cs' (cycles cs d)"
  by (induction cs arbitrary: d) auto

text \<open>
  C10. The counter is 8 bits wide and the increment by 2 is modulo 256, without
  saturation. A run of matching passes takes the counter up by one per pass to 254 (255
  before the decrement of the last of them); the next matching pass wraps the counter to
  0, below \<open>sensitivity\<close>, no alert is made in that pass although the code matched, and the
  pass ends with the counter at 0.
\<close>

theorem trigger_wraps:
  assumes "\<forall>c\<in>set cs. fst c = 0xFFFFFFFF" and "unat (trigger d) + length cs = 254"
  shows "unat (trigger (cycles cs d)) = 254
       \<and> trigger (loop_match now ((cycles cs d)\<lparr>irCode := 0xFFFFFFFF\<rparr>)) = 0
       \<and> trigger (cycles (cs @ [(0xFFFFFFFF, now)]) d) = 0
       \<and> events (cycles (cs @ [(0xFFFFFFFF, now)]) d) = events (cycles cs d)
       \<and> unat (trigger (loop_match now (d\<lparr>irCode := 0xFFFFFFFF\<rparr>)))
           = (unat (trigger d) + 2) mod 256"
proof -
  have t: "unat (trigger (cycles cs d)) = 254"
    using trigger_cycles_matching [of cs d] assms by simp
  then have w: "trigger (cycles cs d) = 254"
    by (simp add: word_unat_eq_iff)
  have m: "trigger (loop_match now ((cycles cs d)\<lparr>irCode := 0xFFFFFFFF\<rparr>)) = 0"
    by (simp add: trigger_loop_match w)
  have e: "events (loop_match now ((cycles cs d)\<lparr>irCode := 0xFFFFFFFF\<rparr>)) = events (cycles cs d)"
    by (simp add: events_loop_match w sensitivity_def)
  have "trigger (loop_decay (loop_match now ((cycles cs d)\<lparr>irCode := 0xFFFFFFFF\<rparr>))) = 0"
    using m by (simp add: loop_decay_def)
  then show ?thesis
    using t m e by (simp add: cycles_append trigger_loop_match unat_word_ariths)
qed

theorem trigger_wraps_witness:
  "unat (trigger (cycles (replicate 254 (0xFFFFFFFF, 0)) initial)) = 254
   \<and> trigger (cycles (replicate 254 (0xFFFFFFFF, 0) @ [(0xFFFFFFFF, 0)]) initial) = 0
   \<and> events (cycles (replicate 254 (0xFFFFFFFF, 0) @ [(0xFFFFFFFF, 0)]) initial)
       = events (cycles (replicate 254 (0xFFFFFFFF, 0)) initial)"
  using trigger_wraps [of "replicate 254 (0xFFFFFFFF, 0)" initial 0]
  by (simp add: initial_def)

section \<open>The pulse sampler\<close>

subsection \<open>Single steps of the two loops\<close>

text \<open>A poll that finds the measured level counts it and tests for the end of the session.\<close>

lemma listen_poll:
  assumes "pin k = level ph"
  shows "listen pin ph k n d =
           (if timed_out (n + 1) d then Some (Returned (k + 1) d)
            else listen pin ph (k + 1) (n + 1) d)"
  using assms
  by (subst listen.simps) (auto simp: Let_def level_def timed_out_def split: phase.splits)

text \<open>A poll that finds the other level stores the count and starts the other loop.\<close>

lemma listen_leave_high:
  assumes "\<not> pin k" and "unat (currentpulse d) < length (pulses d)"
  shows "listen pin HighLoop k n d = listen pin LowLoop (k + 1) 0 (store_high n d)"
  using assms by (subst listen.simps) simp

lemma listen_leave_low:
  assumes "pin k" and "unat (currentpulse d) < length (pulses d)"
  shows "listen pin LowLoop k n d = listen pin HighLoop (k + 1) 0 (store_low n d)"
  using assms by (subst listen.simps) simp

lemma store_high_simps [simp]:
  "currentpulse (store_high n d) = currentpulse d"
  "length (pulses (store_high n d)) = length (pulses d)"
  "untouched d (store_high n d)"
  by (simp_all add: store_high_def Let_def untouched_def)

lemma store_low_simps [simp]:
  "currentpulse (store_low n d) = currentpulse d + 1"
  "length (pulses (store_low n d)) = length (pulses d)"
  "untouched d (store_low n d)"
  by (simp_all add: store_low_def Let_def untouched_def)

lemma untouched_refl [simp]: "untouched d d"
  by (simp add: untouched_def)

lemma untouched_trans: "untouched a b \<Longrightarrow> untouched b c \<Longrightarrow> untouched a c"
  by (simp add: untouched_def)

text \<open>With the index outside the array, that store is the out-of-bounds write.\<close>

lemma listen_overrun:
  assumes "pin k \<noteq> level ph" and "length (pulses d) \<le> unat (currentpulse d)"
  shows "listen pin ph k n d = Some (OutOfBounds (unat (currentpulse d)))"
  using assms
  by (subst listen.simps) (auto simp: Let_def level_def split: phase.splits)

subsection \<open>Runs of polls at one level\<close>

lemma listen_run:
  assumes "\<forall>j<m. pin (k + j) = level ph"
      and "\<forall>j<m. \<not> timed_out (n + word_of_nat (Suc j)) d"
  shows "listen pin ph k n d = listen pin ph (k + m) (n + word_of_nat m) d"
  using assms
proof (induction m arbitrary: k n)
  case 0
  then show ?case by simp
next
  case (Suc m)
  have p: "pin k = level ph"
    using Suc.prems(1) by (metis add.right_neutral zero_less_Suc)
  have t: "\<not> timed_out (n + 1) d"
    using Suc.prems(2) [rule_format, of 0] by simp
  have "listen pin ph k n d = listen pin ph (k + 1) (n + 1) d"
    using listen_poll [of pin k ph n d] p t by simp
  also have "\<dots> = listen pin ph (k + 1 + m) (n + 1 + word_of_nat m) d"
  proof (rule Suc.IH)
    show "\<forall>j<m. pin (k + 1 + j) = level ph"
      using Suc.prems(1) by (metis Suc_eq_plus1 add_Suc_right add_Suc_shift Suc_less_eq)
    show "\<forall>j<m. \<not> timed_out (n + 1 + word_of_nat (Suc j)) d"
    proof (intro allI impI)
      fix j assume "j < m"
      then have "\<not> timed_out (n + word_of_nat (Suc (Suc j))) d"
        using Suc.prems(2) [rule_format, of "Suc j"] by blast
      moreover have "n + 1 + word_of_nat (Suc j) = n + word_of_nat (Suc (Suc j))"
        by simp
      ultimately show "\<not> timed_out (n + 1 + word_of_nat (Suc j)) d"
        by (simp only: not_False_eq_True)
    qed
  qed
  finally show ?case by (simp add: ac_simps)
qed

lemma unat_Suc_word:
  fixes n :: u16
  assumes "unat n < 65535"
  shows "unat (n + 1) = Suc (unat n)"
  using assms by (simp add: unat_word_ariths)

lemma unat_add_of_nat:
  fixes n :: u16
  assumes "unat n + m < 65536"
  shows "unat (n + word_of_nat m) = unat n + m"
  using assms by (simp add: unat_word_ariths unat_of_nat)

text \<open>
  With a pair recorded, the session ends when the running count reaches \<open>MAXPULSE\<close> (at the
  first poll if the buffer is full), and the state returned is the one the loop was in.
\<close>

lemma listen_gives_up:
  assumes cp: "currentpulse d \<noteq> 0" and n: "unat n < MAXPULSE"
      and held: "\<forall>j < MAXPULSE - unat n. pin (k + j) = level ph"
  shows "\<exists>k'. k < k' \<and> k' \<le> k + (MAXPULSE - unat n)
           \<and> listen pin ph k n d = Some (Returned k' d)"
proof (cases "unat (currentpulse d) = NUMPULSES")
  case True
  have "pin k = level ph"
    using held n by (metis add.right_neutral zero_less_diff)
  then have "listen pin ph k n d = Some (Returned (k + 1) d)"
    using True by (simp add: listen_poll timed_out_def)
  then show ?thesis using n by (intro exI [of _ "k + 1"]) simp
next
  case False
  define m where "m = MAXPULSE - unat n - 1"
  have m: "unat n + m + 1 = MAXPULSE" using n by (simp add: m_def)
  have run: "listen pin ph k n d = listen pin ph (k + m) (n + word_of_nat m) d"
  proof (rule listen_run)
    show "\<forall>j<m. pin (k + j) = level ph" using held m by simp
    show "\<forall>j<m. \<not> timed_out (n + word_of_nat (Suc j)) d"
    proof (intro allI impI)
      fix j assume "j < m"
      then have "unat (n + word_of_nat (Suc j)) = unat n + Suc j"
        using m by (intro unat_add_of_nat) (simp add: MAXPULSE_def)
      then show "\<not> timed_out (n + word_of_nat (Suc j)) d"
        using False m \<open>j < m\<close> by (simp add: timed_out_def)
    qed
  qed
  have last: "pin (k + m) = level ph" using held m by simp
  have "n + word_of_nat m + 1 = n + word_of_nat (m + 1)" by simp
  then have "unat (n + word_of_nat m + 1) = MAXPULSE"
    using unat_add_of_nat [of n "m + 1"] m by (simp only: MAXPULSE_def)
  then have "timed_out (n + word_of_nat m + 1) d"
    using cp by (simp add: timed_out_def)
  then have "listen pin ph (k + m) (n + word_of_nat m) d = Some (Returned (k + m + 1) d)"
    using last by (simp add: listen_poll)
  with run have "listen pin ph k n d = Some (Returned (k + m + 1) d)" by simp
  then show ?thesis using m by (intro exI [of _ "k + m + 1"]) simp
qed

text \<open>
  The same, to the poll: with the buffer full the first poll at the measured level
  returns, otherwise the poll at which the count reaches \<open>MAXPULSE\<close> does.
\<close>

lemma listen_full:
  assumes "unat (currentpulse d) = NUMPULSES" and "pin k = level ph"
  shows "listen pin ph k n d = Some (Returned (k + 1) d)"
  using assms by (simp add: listen_poll timed_out_def)

lemma listen_gives_up_exact:
  assumes cp: "currentpulse d \<noteq> 0" and room: "unat (currentpulse d) \<noteq> NUMPULSES"
      and n: "unat n < MAXPULSE"
      and held: "\<forall>j < MAXPULSE - unat n. pin (k + j) = level ph"
  shows "listen pin ph k n d = Some (Returned (k + (MAXPULSE - unat n)) d)"
proof -
  define m where "m = MAXPULSE - unat n - 1"
  have m: "unat n + m + 1 = MAXPULSE" using n by (simp add: m_def)
  have run: "listen pin ph k n d = listen pin ph (k + m) (n + word_of_nat m) d"
  proof (rule listen_run)
    show "\<forall>j<m. pin (k + j) = level ph" using held m by simp
    show "\<forall>j<m. \<not> timed_out (n + word_of_nat (Suc j)) d"
    proof (intro allI impI)
      fix j assume "j < m"
      then have "unat (n + word_of_nat (Suc j)) = unat n + Suc j"
        using m by (intro unat_add_of_nat) (simp add: MAXPULSE_def)
      then show "\<not> timed_out (n + word_of_nat (Suc j)) d"
        using room m \<open>j < m\<close> by (simp add: timed_out_def)
    qed
  qed
  have last: "pin (k + m) = level ph" using held m by simp
  have "n + word_of_nat m + 1 = n + word_of_nat (m + 1)" by simp
  then have "unat (n + word_of_nat m + 1) = MAXPULSE"
    using unat_add_of_nat [of n "m + 1"] m by (simp only: MAXPULSE_def)
  then have "timed_out (n + word_of_nat m + 1) d"
    using cp by (simp add: timed_out_def)
  then have "listen pin ph (k + m) (n + word_of_nat m) d = Some (Returned (k + m + 1) d)"
    using last by (simp add: listen_poll)
  with run have "listen pin ph k n d = Some (Returned (k + m + 1) d)" by simp
  moreover have "k + m + 1 = k + (MAXPULSE - unat n)" using m by simp
  ultimately show ?thesis by simp
qed

text \<open>
  With no pair recorded the \<open>MAXPULSE\<close> test is off: on a line that stays at the measured
  level the loop never returns.
\<close>

lemma listen_blocks:
  assumes "listen pin ph k n d = Some r"
  shows "\<not> (currentpulse d = 0 \<and> (\<forall>j\<ge>k. pin j = level ph))"
proof (rule listen.raw_induct
    [where P = "\<lambda>pin ph k n d r. \<not> (currentpulse d = 0 \<and> (\<forall>j\<ge>k. pin j = level ph))",
      OF _ assms], goal_cases)
  case (1 listen' pin ph k n d r)
  show ?case
  proof
    assume a: "currentpulse d = 0 \<and> (\<forall>j\<ge>k. pin j = level ph)"
    then have "pin k = level ph" by simp
    with 1(2) a have "listen' pin ph (k + 1) (n + 1) d = Some r"
      by (auto simp: Let_def level_def NUMPULSES_def split: phase.splits if_splits)
    from 1(1) [OF this] a show False by auto
  qed
qed

subsection \<open>What a session leaves behind\<close>

lemma listen_frame:
  assumes "listen pin ph k n d = Some (Returned k' d')"
  shows "untouched d d'"
proof -
  have "\<forall>k'' d''. Returned k' d' = Returned k'' d'' \<longrightarrow> untouched d d''"
  proof (rule listen.raw_induct
      [where P = "\<lambda>pin ph k n d r. \<forall>k' d'. r = Returned k' d' \<longrightarrow> untouched d d'",
        OF _ assms], goal_cases)
    case (1 listen' pin ph k n d r)
    show ?case
    proof (intro allI impI)
      fix k' d' assume "r = Returned k' d'"
      with 1(2) show "untouched d d'"
        by (auto simp: Let_def split: phase.splits if_splits
            dest!: 1(1) intro: untouched_trans [OF store_high_simps(3)]
              untouched_trans [OF store_low_simps(3)])
    qed
  qed
  then show ?thesis by simp
qed

text \<open>
  From an index within 0..100 the sampler either returns with the index still within
  0..100, or it attempts a store at index 100, one row past the end of the array.
\<close>

lemma listen_bounds:
  assumes "listen pin ph k n d = Some r"
    and "length (pulses d) = 100" and "unat (currentpulse d) \<le> 100"
  shows "case r of
           Returned k' d' \<Rightarrow> length (pulses d') = 100 \<and> unat (currentpulse d') \<le> 100
         | OutOfBounds i \<Rightarrow> i = 100"
proof -
  have "length (pulses d) = 100 \<and> unat (currentpulse d) \<le> 100 \<longrightarrow>
        (case r of
           Returned k' d' \<Rightarrow> length (pulses d') = 100 \<and> unat (currentpulse d') \<le> 100
         | OutOfBounds i \<Rightarrow> i = 100)"
  proof (rule listen.raw_induct
      [where P = "\<lambda>pin ph k n d r.
          length (pulses d) = 100 \<and> unat (currentpulse d) \<le> 100 \<longrightarrow>
          (case r of
             Returned k' d' \<Rightarrow> length (pulses d') = 100 \<and> unat (currentpulse d') \<le> 100
           | OutOfBounds i \<Rightarrow> i = 100)",
        OF _ assms(1)], goal_cases)
    case (1 listen' pin ph k n d r)
    show ?case
    proof
      assume inv: "length (pulses d) = 100 \<and> unat (currentpulse d) \<le> 100"
      have s: "unat (currentpulse d + 1) \<le> 100" if "unat (currentpulse d) < 100"
        using that unat_Suc_word [of "currentpulse d"] by simp
      from 1(2) inv s
      show "case r of
              Returned k' d' \<Rightarrow> length (pulses d') = 100 \<and> unat (currentpulse d') \<le> 100
            | OutOfBounds i \<Rightarrow> i = 100"
        by (auto simp: Let_def split: phase.splits if_splits dest!: 1(1))
    qed
  qed
  with assms show ?thesis by simp
qed

text \<open>A return comes after at least one more poll.\<close>

lemma listen_later:
  assumes "listen pin ph k n d = Some (Returned k' d')"
  shows "k < k'"
proof -
  have "\<forall>k'' d''. Returned k' d' = Returned k'' d'' \<longrightarrow> k < k''"
  proof (rule listen.raw_induct
      [where P = "\<lambda>pin ph k n d r. \<forall>k' d'. r = Returned k' d' \<longrightarrow> k < k'",
        OF _ assms], goal_cases)
    case (1 listen' pin ph k n d r)
    show ?case
    proof (intro allI impI)
      fix k' d' assume "r = Returned k' d'"
      with 1(2) show "k < k'"
        by (auto simp: Let_def split: phase.splits if_splits dest!: 1(1))
    qed
  qed
  then show ?thesis by simp
qed

text \<open>
  Row 0 is written while the pair index is 0 only: once a pair is recorded it stays as it
  is to the end of the session, and in the low loop of the first pair the high duration
  already stored stays.
\<close>

lemma listen_row0:
  assumes "listen pin ph k n d = Some (Returned k' d')" and "length (pulses d) = 100"
  shows "(currentpulse d \<noteq> 0 \<longrightarrow> pulses d' ! 0 = pulses d ! 0)
       \<and> (currentpulse d = 0 \<and> ph = LowLoop \<longrightarrow> fst (pulses d' ! 0) = fst (pulses d ! 0))"
proof -
  let ?Q = "\<lambda>ph d d'. (currentpulse d \<noteq> 0 \<longrightarrow> pulses d' ! 0 = pulses d ! 0)
       \<and> (currentpulse d = 0 \<and> ph = LowLoop \<longrightarrow> fst (pulses d' ! 0) = fst (pulses d ! 0))"
  have "length (pulses d) = 100 \<longrightarrow> (\<forall>k'' d''. Returned k' d' = Returned k'' d'' \<longrightarrow> ?Q ph d d'')"
  proof (rule listen.raw_induct
      [where P = "\<lambda>pin ph k n d r. length (pulses d) = 100 \<longrightarrow>
          (\<forall>k' d'. r = Returned k' d' \<longrightarrow> ?Q ph d d')",
        OF _ assms(1)], goal_cases)
    case (1 listen' pin ph k n d r)
    show ?case
    proof (intro allI impI)
      fix k' d' assume len: "length (pulses d) = 100" and r: "r = Returned k' d'"
      have nz: "currentpulse d + 1 \<noteq> 0" if "unat (currentpulse d) < 100"
        using that unat_Suc_word [of "currentpulse d"] by auto
      have pos: "0 < unat (currentpulse d)" if "currentpulse d \<noteq> 0"
        using that by (simp add: unat_gt_0)
      from 1(2) r len nz pos show "?Q ph d d'"
        by (auto simp: Let_def store_high_def store_low_def NUMPULSES_def
            split: phase.splits if_splits dest!: 1(1))
    qed
  qed
  with assms(2) show ?thesis by simp
qed

subsection \<open>Termination of a session\<close>

text \<open>
  C1, as stated: for every input, the capture terminates, also when the input is held
  permanently high. It does not: from the start of a session the pair index is 0, the
  \<open>MAXPULSE\<close> test is switched off by \<^verbatim>\<open>currentpulse != 0\<close>, and on a line that stays high
  the sampler polls for ever.
\<close>

theorem listenForIR_held_high_never_returns:
  "listenForIR held_high initial = None"
proof (cases "listenForIR held_high initial")
  case None
  then show ?thesis .
next
  case (Some r)
  then show ?thesis
    unfolding listenForIR_def
    using listen_blocks [of held_high HighLoop 0 0 "initial\<lparr>currentpulse := 0\<rparr>" r]
    by (simp add: held_high_def level_def)
qed

text \<open>
  C1, amended. Once a pair has been recorded and the buffer is not full (pair index within
  1..99, running count below \<open>MAXPULSE\<close>), an input that is held at one level, high or low,
  makes the capture return within \<open>MAXPULSE + 1\<close> further polls, with at most \<open>NUMPULSES\<close>
  pairs recorded.
\<close>

theorem listen_returns_when_held:
  assumes cp: "currentpulse d \<noteq> 0" and room: "unat (currentpulse d) < NUMPULSES"
      and len: "length (pulses d) = 100"
      and n: "unat n < MAXPULSE"
      and held: "\<forall>j\<ge>k. pin j = lvl"
  shows "\<exists>k' d'. listen pin ph k n d = Some (Returned k' d') \<and> k' \<le> k + MAXPULSE + 1
           \<and> currentpulse d' \<noteq> 0 \<and> unat (currentpulse d') \<le> NUMPULSES"
proof (cases "lvl = level ph")
  case True
  have "\<forall>j < MAXPULSE - unat n. pin (k + j) = level ph" using held True by simp
  from listen_gives_up [of d n pin k ph, OF cp n this]
  obtain k' where "k' \<le> k + (MAXPULSE - unat n)" "listen pin ph k n d = Some (Returned k' d)"
    by blast
  then show ?thesis using cp room by (intro exI [of _ k'] exI [of _ d]) simp
next
  case False
  have i: "unat (currentpulse d) < length (pulses d)"
    using room len by (simp add: NUMPULSES_def)
  have z: "unat (0 :: u16) < MAXPULSE" by (simp add: MAXPULSE_def)
  show ?thesis
  proof (cases ph)
    case HighLoop
    let ?d = "store_high n d"
    have low: "\<not> pin k" using held False HighLoop by (simp add: level_def)
    have step: "listen pin ph k n d = listen pin LowLoop (k + 1) 0 ?d"
      using listen_leave_high [of pin k d n] low i HighLoop by simp
    have "\<forall>j < MAXPULSE - unat (0 :: u16). pin (k + 1 + j) = level LowLoop"
      using held False HighLoop by (simp add: level_def)
    from listen_gives_up [of ?d 0 pin "k + 1" LowLoop, OF _ z this] cp
    obtain k' where "k' \<le> k + 1 + MAXPULSE"
      "listen pin LowLoop (k + 1) 0 ?d = Some (Returned k' ?d)"
      by auto
    then show ?thesis using cp room step by (intro exI [of _ k'] exI [of _ ?d]) simp
  next
    case LowLoop
    let ?d = "store_low n d"
    have high: "pin k" using held False LowLoop by (simp add: level_def)
    have step: "listen pin ph k n d = listen pin HighLoop (k + 1) 0 ?d"
      using listen_leave_low [of pin k d n] high i LowLoop by simp
    have u: "unat (currentpulse d + 1) = Suc (unat (currentpulse d))"
      using room by (intro unat_Suc_word) (simp add: NUMPULSES_def)
    then have cp': "currentpulse ?d \<noteq> 0" by auto
    have "\<forall>j < MAXPULSE - unat (0 :: u16). pin (k + 1 + j) = level HighLoop"
      using held False LowLoop by (simp add: level_def)
    from listen_gives_up [of ?d 0 pin "k + 1" HighLoop, OF cp' z this]
    obtain k' where "k' \<le> k + 1 + MAXPULSE"
      "listen pin HighLoop (k + 1) 0 ?d = Some (Returned k' ?d)"
      by auto
    then show ?thesis using cp' room step u by (intro exI [of _ k'] exI [of _ ?d]) simp
  qed
qed

text \<open>The line reads low once and is high from then on: the first pair is (0, 0).\<close>

lemma low_then_high_first_pair:
  "listenForIR low_then_high initial =
     listen low_then_high HighLoop 2 0
       (store_low 0 (store_high 0 (initial\<lparr>currentpulse := 0\<rparr>)))"
proof -
  let ?d0 = "initial\<lparr>currentpulse := 0\<rparr>"
  have "listen low_then_high HighLoop 0 0 ?d0 = listen low_then_high LowLoop (0 + 1) 0 (store_high 0 ?d0)"
    by (rule listen_leave_high) (simp_all add: low_then_high_def initial_def)
  also have "\<dots> = listen low_then_high HighLoop (0 + 1 + 1) 0 (store_low 0 (store_high 0 ?d0))"
    by (rule listen_leave_low) (simp_all add: low_then_high_def initial_def)
  finally show ?thesis by (simp add: listenForIR_def numeral_2_eq_2)
qed

lemma pair_then_low_first_pair:
  "listenForIR pair_then_low initial =
     listen pair_then_low HighLoop 2 0
       (store_low 0 (store_high 0 (initial\<lparr>currentpulse := 0\<rparr>)))"
proof -
  let ?d0 = "initial\<lparr>currentpulse := 0\<rparr>"
  have "listen pair_then_low HighLoop 0 0 ?d0 = listen pair_then_low LowLoop (0 + 1) 0 (store_high 0 ?d0)"
    by (rule listen_leave_high) (simp_all add: pair_then_low_def initial_def)
  also have "\<dots> = listen pair_then_low HighLoop (0 + 1 + 1) 0 (store_low 0 (store_high 0 ?d0))"
    by (rule listen_leave_low) (simp_all add: pair_then_low_def initial_def)
  finally show ?thesis by (simp add: listenForIR_def numeral_2_eq_2)
qed

theorem listen_returns_when_held_witness:
  "(\<exists>k' d'. listenForIR low_then_high initial = Some (Returned k' d') \<and> k' \<le> 2 + MAXPULSE + 1
      \<and> currentpulse d' \<noteq> 0 \<and> unat (currentpulse d') \<le> NUMPULSES)
   \<and> (\<exists>k' d'. listenForIR pair_then_low initial = Some (Returned k' d') \<and> k' \<le> 2 + MAXPULSE + 1
      \<and> currentpulse d' \<noteq> 0 \<and> unat (currentpulse d') \<le> NUMPULSES)"
  unfolding low_then_high_first_pair pair_then_low_first_pair
  using listen_returns_when_held
    [of "store_low 0 (store_high 0 (initial\<lparr>currentpulse := 0\<rparr>))" 0 2 low_then_high True HighLoop]
    listen_returns_when_held
    [of "store_low 0 (store_high 0 (initial\<lparr>currentpulse := 0\<rparr>))" 0 2 pair_then_low False HighLoop]
  by (simp add: low_then_high_def pair_then_low_def initial_def NUMPULSES_def MAXPULSE_def)

subsection \<open>The buffer bound\<close>

text \<open>On the line that changes at every poll, \<open>m\<close> pairs are stored in \<open>2 * m\<close> polls.\<close>

lemma alternating_pairs:
  assumes "m \<le> 100" and "length (pulses d) = 100"
  shows "\<exists>d'. currentpulse d' = word_of_nat m \<and> length (pulses d') = 100 \<and>
     listen alternating HighLoop 0 0 (d\<lparr>currentpulse := 0\<rparr>)
       = listen alternating HighLoop (2 * m) 0 d'"
  using assms(1)
proof (induction m)
  case 0
  show ?case using assms(2) by (intro exI [of _ "d\<lparr>currentpulse := 0\<rparr>"]) simp
next
  case (Suc m)
  then obtain d' where d': "currentpulse d' = word_of_nat m" "length (pulses d') = 100"
    "listen alternating HighLoop 0 0 (d\<lparr>currentpulse := 0\<rparr>)
       = listen alternating HighLoop (2 * m) 0 d'"
    by auto
  have i: "unat (currentpulse d') = m"
    using Suc.prems d'(1) by (simp add: unat_of_nat)
  have "listen alternating HighLoop (2 * m) 0 d'
          = listen alternating LowLoop (2 * m + 1) 0 (store_high 0 d')"
    using listen_leave_high [of alternating "2 * m" d' 0] i d'(2) Suc.prems
    by (simp add: alternating_def)
  also have "\<dots> = listen alternating HighLoop (2 * m + 1 + 1) 0 (store_low 0 (store_high 0 d'))"
    using listen_leave_low [of alternating "2 * m + 1" "store_high 0 d'" 0] i d'(2) Suc.prems
    by (simp add: alternating_def)
  finally have "listen alternating HighLoop (2 * m) 0 d'
      = listen alternating HighLoop (2 * Suc m) 0 (store_low 0 (store_high 0 d'))"
    by simp
  with d' show ?case by (intro exI [of _ "store_low 0 (store_high 0 d')"]) simp
qed

text \<open>
  C2. The claim: every write into \<open>pulses\<close> uses a pair index below 100. The test
  \<^verbatim>\<open>currentpulse == NUMPULSES\<close> sits inside the two polling loops only. On the line that
  changes at every poll neither loop body runs, 100 pairs are stored in 200 polls, and
  the next statement executed is \<^verbatim>\<open>pulses[100][0] = highpulse\<close>.
\<close>

theorem listenForIR_alternating_overruns:
  "listenForIR alternating initial = Some (OutOfBounds 100)"
proof -
  obtain d' where d': "currentpulse d' = word_of_nat 100" "length (pulses d') = 100"
    "listen alternating HighLoop 0 0 (initial\<lparr>currentpulse := 0\<rparr>)
       = listen alternating HighLoop (2 * 100) 0 d'"
    using alternating_pairs [of 100 initial] by (auto simp: initial_def)
  have "listen alternating HighLoop (2 * 100) 0 d' = Some (OutOfBounds (unat (currentpulse d')))"
    using d'(1,2) by (intro listen_overrun) (simp_all add: alternating_def level_def)
  with d' show ?thesis by (simp add: listenForIR_def)
qed

subsection \<open>The \<open>MAXPULSE\<close> rule and its exemption\<close>

text \<open>
  C9. A pulse (of either level) that lasts \<open>MAXPULSE\<close> polls or more ends the session when
  a pair has been recorded before: the capture returns at exactly the \<open>MAXPULSE\<close>-th poll
  of the pulse (at its first poll if the buffer is full), and the pulse is not stored.
  While the pair index is 0 the measurement goes on for the whole pulse of \<open>m\<close> polls:
  when the level changes the count (as a 16-bit value) is stored in row 0, the sampler
  continues with the other loop, a return of the session comes later than that and finds
  the count still in row 0. In particular a first high pulse of \<open>m\<close> polls followed by a
  first low pulse of \<open>b\<close> polls, of any lengths, is recorded as the pair
  \<open>(m, b - 1)\<close>, and the high pulse after it ends the session at its \<open>MAXPULSE\<close>-th poll.
\<close>

theorem maxpulse_rule:
  assumes run: "\<forall>j<m. pin (k + j) = level ph" and long: "MAXPULSE \<le> m"
  shows "(currentpulse d \<noteq> 0 \<longrightarrow>
            listen pin ph k 0 d =
              Some (Returned (if unat (currentpulse d) = NUMPULSES then k + 1 else k + MAXPULSE) d))
       \<and> (currentpulse d = 0 \<and> pin (k + m) \<noteq> level ph \<and> length (pulses d) = 100 \<longrightarrow>
            listen pin ph k 0 d =
              (case ph of
                 HighLoop \<Rightarrow> listen pin LowLoop (k + m + 1) 0 (store_high (word_of_nat m) d)
               | LowLoop \<Rightarrow> listen pin HighLoop (k + m + 1) 0 (store_low (word_of_nat m) d))
            \<and> (\<forall>k' d'. listen pin ph k 0 d = Some (Returned k' d') \<longrightarrow>
                  k + m + 1 < k'
                  \<and> (case ph of HighLoop \<Rightarrow> fst (pulses d' ! 0) | LowLoop \<Rightarrow> snd (pulses d' ! 0))
                      = word_of_nat m))
       \<and> (currentpulse d = 0 \<and> ph = HighLoop \<and> length (pulses d) = 100 \<and> 0 < b
            \<and> (\<forall>j<b. \<not> pin (k + m + j)) \<and> (\<forall>j\<le>MAXPULSE. pin (k + m + b + j)) \<longrightarrow>
            listen pin ph k 0 d =
              Some (Returned (k + m + b + 1 + MAXPULSE)
                (store_low (word_of_nat (b - 1)) (store_high (word_of_nat m) d))))"
proof (intro conjI impI)
  assume cp: "currentpulse d \<noteq> 0"
  have z: "unat (0 :: u16) < MAXPULSE" by (simp add: MAXPULSE_def)
  have held: "\<forall>j < MAXPULSE - unat (0 :: u16). pin (k + j) = level ph"
    using run long by simp
  show "listen pin ph k 0 d =
      Some (Returned (if unat (currentpulse d) = NUMPULSES then k + 1 else k + MAXPULSE) d)"
  proof (cases "unat (currentpulse d) = NUMPULSES")
    case True
    have "0 < m" using long by (simp add: MAXPULSE_def)
    then have "pin (k + 0) = level ph" using run by blast
    then have "pin k = level ph" by simp
    from listen_full [of d pin k ph 0, OF True this] True show ?thesis by simp
  next
    case False
    from listen_gives_up_exact [of d 0 pin k ph, OF cp False z held] False
    show ?thesis by simp
  qed
next
  assume a: "currentpulse d = 0 \<and> pin (k + m) \<noteq> level ph \<and> length (pulses d) = 100"
  have "\<forall>j<m. \<not> timed_out (0 + word_of_nat (Suc j)) d"
    using a by (simp add: timed_out_def NUMPULSES_def)
  from listen_run [of m pin k ph 0 d, OF run this]
  have r: "listen pin ph k 0 d = listen pin ph (k + m) (word_of_nat m) d" by simp
  show go: "listen pin ph k 0 d =
          (case ph of
             HighLoop \<Rightarrow> listen pin LowLoop (k + m + 1) 0 (store_high (word_of_nat m) d)
           | LowLoop \<Rightarrow> listen pin HighLoop (k + m + 1) 0 (store_low (word_of_nat m) d))"
  proof (cases ph)
    case HighLoop
    then have "\<not> pin (k + m)" using a by (simp add: level_def)
    from listen_leave_high [of pin "k + m" d "word_of_nat m"] this a
    show ?thesis unfolding r by (simp add: HighLoop)
  next
    case LowLoop
    then have "pin (k + m)" using a by (simp add: level_def)
    from listen_leave_low [of pin "k + m" d "word_of_nat m"] this a
    show ?thesis unfolding r by (simp add: LowLoop)
  qed
  show "\<forall>k' d'. listen pin ph k 0 d = Some (Returned k' d') \<longrightarrow>
          k + m + 1 < k'
          \<and> (case ph of HighLoop \<Rightarrow> fst (pulses d' ! 0) | LowLoop \<Rightarrow> snd (pulses d' ! 0))
              = word_of_nat m"
  proof (intro allI impI)
    fix k' d' assume ret: "listen pin ph k 0 d = Some (Returned k' d')"
    show "k + m + 1 < k'
          \<and> (case ph of HighLoop \<Rightarrow> fst (pulses d' ! 0) | LowLoop \<Rightarrow> snd (pulses d' ! 0))
              = word_of_nat m"
    proof (cases ph)
      case HighLoop
      let ?d1 = "store_high (word_of_nat m) d"
      have c: "listen pin LowLoop (k + m + 1) 0 ?d1 = Some (Returned k' d')"
        using go ret HighLoop by simp
      have "fst (pulses d' ! 0) = fst (pulses ?d1 ! 0)"
        using listen_row0 [OF c] a by simp
      moreover have "fst (pulses ?d1 ! 0) = word_of_nat m"
        using a by (simp add: store_high_def)
      ultimately show ?thesis using listen_later [OF c] HighLoop by simp
    next
      case LowLoop
      let ?d1 = "store_low (word_of_nat m) d"
      have c: "listen pin HighLoop (k + m + 1) 0 ?d1 = Some (Returned k' d')"
        using go ret LowLoop by simp
      have "pulses d' ! 0 = pulses ?d1 ! 0"
        using listen_row0 [OF c] a by simp
      moreover have "snd (pulses ?d1 ! 0) = word_of_nat m"
        using a by (simp add: store_low_def)
      ultimately show ?thesis using listen_later [OF c] LowLoop by simp
    qed
  qed
next
  assume a: "currentpulse d = 0 \<and> ph = HighLoop \<and> length (pulses d) = 100 \<and> 0 < b
            \<and> (\<forall>j<b. \<not> pin (k + m + j)) \<and> (\<forall>j\<le>MAXPULSE. pin (k + m + b + j))"
  let ?d1 = "store_high (word_of_nat m) d"
  let ?d2 = "store_low (word_of_nat (b - 1)) ?d1"
  have cp0: "currentpulse d = 0" and len: "length (pulses d) = 100" and b: "0 < b"
    and low: "\<forall>j<b. \<not> pin (k + m + j)" and high: "\<forall>j\<le>MAXPULSE. pin (k + m + b + j)"
    using a by auto
  have runH: "\<forall>j<m. pin (k + j) = level HighLoop" using run a by simp
  have "\<forall>j<m. \<not> timed_out (0 + word_of_nat (Suc j)) d"
    using cp0 by (simp add: timed_out_def NUMPULSES_def)
  from listen_run [of m pin k HighLoop 0 d, OF runH this]
  have "listen pin HighLoop k 0 d = listen pin HighLoop (k + m) (word_of_nat m) d" by simp
  also have "\<dots> = listen pin LowLoop (k + m + 1) 0 ?d1"
    using listen_leave_high [of pin "k + m" d "word_of_nat m"] low [rule_format, of 0] b cp0 len
    by simp
  also have "\<dots> = listen pin LowLoop (k + m + 1 + (b - 1)) (0 + word_of_nat (b - 1)) ?d1"
  proof (rule listen_run)
    show "\<forall>j<b - 1. pin (k + m + 1 + j) = level LowLoop"
    proof (intro allI impI)
      fix j assume "j < b - 1"
      then have "j + 1 < b" by simp
      from low [rule_format, OF this] have "\<not> pin (k + m + (j + 1))" .
      then show "pin (k + m + 1 + j) = level LowLoop"
        by (simp add: level_def ac_simps)
    qed
    show "\<forall>j<b - 1. \<not> timed_out (0 + word_of_nat (Suc j)) ?d1"
      using cp0 by (simp add: timed_out_def NUMPULSES_def)
  qed
  also have "\<dots> = listen pin LowLoop (k + m + b) (word_of_nat (b - 1)) ?d1"
    using b by simp
  also have "\<dots> = listen pin HighLoop (k + m + b + 1) 0 ?d2"
    using listen_leave_low [of pin "k + m + b" ?d1 "word_of_nat (b - 1)"]
      high [rule_format, of 0] cp0 len
    by simp
  also have "\<dots> = Some (Returned (k + m + b + 1 + (MAXPULSE - unat (0 :: u16))) ?d2)"
  proof (rule listen_gives_up_exact)
    show "currentpulse ?d2 \<noteq> 0" using cp0 by simp
    show "unat (currentpulse ?d2) \<noteq> NUMPULSES" using cp0 by (simp add: NUMPULSES_def)
    show "unat (0 :: u16) < MAXPULSE" by (simp add: MAXPULSE_def)
    show "\<forall>j<MAXPULSE - unat (0 :: u16). pin (k + m + b + 1 + j) = level HighLoop"
    proof (intro allI impI)
      fix j assume "j < MAXPULSE - unat (0 :: u16)"
      then have "j + 1 \<le> MAXPULSE" by simp
      from high [rule_format, OF this] have "pin (k + m + b + (j + 1))" .
      then show "pin (k + m + b + 1 + j) = level HighLoop"
        by (simp add: level_def ac_simps)
    qed
  qed
  finally show "listen pin ph k 0 d =
      Some (Returned (k + m + b + 1 + MAXPULSE)
        (store_low (word_of_nat (b - 1)) (store_high (word_of_nat m) d)))"
    using a by simp
qed

theorem maxpulse_rule_witness:
  "listen held_high HighLoop 0 0 (initial\<lparr>currentpulse := 1\<rparr>)
     = Some (Returned 5000 (initial\<lparr>currentpulse := 1\<rparr>))
   \<and> listenForIR long_pair initial
       = Some (Returned 16501 (store_low 5499 (store_high 6000 initial)))
   \<and> listen long_pair LowLoop 6001 0 (store_high 6000 initial)
       = Some (Returned 16501 (store_low 5499 (store_high 6000 initial)))
   \<and> pulses (store_low 5499 (store_high 6000 initial)) ! 0 = (6000, 5499)
   \<and> currentpulse (store_low 5499 (store_high 6000 initial)) = 1"
proof -
  have i: "initial\<lparr>currentpulse := 0\<rparr> = initial" by (simp add: initial_def)
  have h: "\<forall>j<6000. long_pair (0 + j) = level HighLoop"
    by (simp add: long_pair_def level_def)
  have l: "\<forall>j<5500. \<not> long_pair (0 + 6000 + j)"
    by (auto simp: long_pair_def)
  have g: "\<forall>j\<le>MAXPULSE. long_pair (0 + 6000 + 5500 + j)"
    by (simp add: long_pair_def)
  have m: "MAXPULSE \<le> 6000" by (simp add: MAXPULSE_def)
  note rule = maxpulse_rule [of 6000 long_pair 0 HighLoop initial 5500, OF h m]
  have a: "listen long_pair HighLoop 0 0 initial
             = Some (Returned 16501 (store_low 5499 (store_high 6000 initial)))"
    using rule l g by (simp add: initial_def MAXPULSE_def)
  have b: "listen long_pair HighLoop 0 0 initial
             = listen long_pair LowLoop 6001 0 (store_high 6000 initial)"
    using rule by (simp add: initial_def long_pair_def level_def)
  have c: "listen held_high HighLoop 0 0 (initial\<lparr>currentpulse := 1\<rparr>)
     = Some (Returned 5000 (initial\<lparr>currentpulse := 1\<rparr>))"
    using maxpulse_rule [of 5000 held_high 0 HighLoop "initial\<lparr>currentpulse := 1\<rparr>"]
    by (simp add: held_high_def level_def MAXPULSE_def NUMPULSES_def initial_def)
  have d: "pulses (store_low 5499 (store_high 6000 initial)) ! 0 = (6000, 5499)
      \<and> currentpulse (store_low 5499 (store_high 6000 initial)) = 1"
    by (simp add: store_low_def store_high_def initial_def)
  show ?thesis using a b c d by (simp add: listenForIR_def i)
qed

section \<open>A whole pass of \<^verbatim>\<open>loop\<close>\<close>

text \<open>
  A pass that returns changes the counter and the log exactly as one step of \<open>cycles\<close>
  with the code it decoded, and never logs a sleep.
\<close>

lemma loop_is_cycle:
  assumes "loop pin now d = Some (Returned k d')"
  shows "trigger d' = trigger (cycles [(irCode d', now)] d)
       \<and> events d' = events (cycles [(irCode d', now)] d)"
proof -
  from assms obtain d1 where l: "listenForIR pin d = Some (Returned k d1)"
    and d': "d' = after_capture now d1"
    by (auto simp: loop_def split: option.splits outcome.splits)
  have "untouched (d\<lparr>currentpulse := 0\<rparr>) d1"
    using l listen_frame unfolding listenForIR_def by blast
  then have u: "trigger d1 = trigger d" "events d1 = events d"
    by (simp_all add: untouched_def)
  show ?thesis
    unfolding d' after_capture_def
    by (simp add: u trigger_loop_match events_loop_match loop_decay_def)
qed

lemma sleeps_loop:
  assumes "loop pin now d = Some (Returned k d')"
  shows "sleeps d' = sleeps d"
proof -
  have "events d' = events (loop_match now (d\<lparr>irCode := irCode d'\<rparr>))"
    using loop_is_cycle [OF assms] by simp
  then show ?thesis
    by (simp add: sleeps_def events_loop_match)
qed

text \<open>
  The line idles high for 32769 polls, reads low once and is high from then on: the first
  pair is (32769, 0), and the session ends \<open>MAXPULSE\<close> polls later with one pair.
\<close>

lemma idle_then_burst_capture:
  "\<exists>k. listenForIR idle_then_burst initial =
     Some (Returned k (store_low 0 (store_high 32769 (initial\<lparr>currentpulse := 0\<rparr>))))"
proof -
  let ?d0 = "initial\<lparr>currentpulse := 0\<rparr>"
  let ?d2 = "store_low 0 (store_high 32769 ?d0)"
  have "listen idle_then_burst HighLoop 0 0 ?d0
          = listen idle_then_burst HighLoop (0 + 32769) (0 + word_of_nat 32769) ?d0"
    by (rule listen_run) (simp_all add: idle_then_burst_def level_def timed_out_def NUMPULSES_def)
  also have "\<dots> = listen idle_then_burst LowLoop (0 + 32769 + 1) 0 (store_high 32769 ?d0)"
    using listen_leave_high [of idle_then_burst "0 + 32769" ?d0 "0 + word_of_nat 32769"]
    by (simp add: idle_then_burst_def initial_def)
  also have "\<dots> = listen idle_then_burst HighLoop (0 + 32769 + 1 + 1) 0 ?d2"
    by (rule listen_leave_low) (simp_all add: idle_then_burst_def initial_def)
  finally have first: "listenForIR idle_then_burst initial
      = listen idle_then_burst HighLoop (0 + 32769 + 1 + 1) 0 ?d2"
    by (simp add: listenForIR_def)
  have "\<exists>k'. 0 + 32769 + 1 + 1 < k' \<and> k' \<le> 0 + 32769 + 1 + 1 + (MAXPULSE - unat (0 :: u16))
      \<and> listen idle_then_burst HighLoop (0 + 32769 + 1 + 1) 0 ?d2 = Some (Returned k' ?d2)"
    by (rule listen_gives_up)
      (simp_all add: idle_then_burst_def level_def MAXPULSE_def)
  with first show ?thesis by auto
qed

text \<open>
  C3. The claim: for every position and every recorded tick count \<open>t\<close> the decoder emits
  bit 0 exactly when \<open>0 < t * RESOLUTION < 500\<close> microseconds, and bit 1 otherwise. The
  code multiplies in 16 bits. After an idle time of 32769 polls the pass records 32769
  ticks (65538 microseconds) at position 0, the product wraps to 2, and position 0 (bit 31
  of the code) is decoded as 0: the code is \<open>0x7FFFFFFF\<close> where the claim gives
  \<open>0xFFFFFFFF\<close>.
\<close>

theorem loop_long_idle_decodes_zero:
  "\<exists>k d'. loop idle_then_burst 0 initial = Some (Returned k d')
      \<and> fst (pulses d' ! 0) = 32769
      \<and> \<not> unat (fst (pulses d' ! 0)) * RESOLUTION < 500
      \<and> \<not> bit (irCode d') 31
      \<and> irCode d' = 0x7FFFFFFF"
proof -
  let ?d2 = "store_low 0 (store_high 32769 (initial\<lparr>currentpulse := 0\<rparr>))"
  obtain k where k: "listenForIR idle_then_burst initial = Some (Returned k ?d2)"
    using idle_then_burst_capture by blast
  have l: "loop idle_then_burst 0 initial = Some (Returned k (after_capture 0 ?d2))"
    by (simp add: loop_def k)
  have p: "pulses ?d2 = (replicate 100 (0, 0))[0 := (32769, 0)]"
    by (simp add: store_low_def store_high_def initial_def)
  have c: "irCode (after_capture 0 ?d2) = irCode (decode (?d2\<lparr>irCode := ucast (currentpulse ?d2)\<rparr>))"
    by (simp add: after_capture_def decoded_def)
  have b: "bit (irCode (after_capture 0 ?d2)) j \<longleftrightarrow> j < 31" for j
  proof (cases "j = 31")
    case True
    then show ?thesis
      unfolding c bit_decode by (simp add: p pulse_bit_def RESOLUTION_def)
  next
    case False
    then show ?thesis
      unfolding c bit_decode by (auto simp: p pulse_bit_def RESOLUTION_def)
  qed
  have "irCode (after_capture 0 ?d2) = mask 31"
    by (rule bit_eqI) (simp add: b bit_mask_iff)
  then have m: "irCode (after_capture 0 ?d2) = 0x7FFFFFFF"
    by (simp add: mask_eq_exp_minus_1)
  show ?thesis
    using l m b [of 31]
    by (intro exI [of _ k] exI [of _ "after_capture 0 ?d2"]) (simp add: p RESOLUTION_def)
qed

section \<open>Power management\<close>

lemma naptime_simps [simp]:
  "events (naptime d) = events d @ [SleepMode]"
  "trigger (naptime d) = 0"
  "triggerTimer (naptime d) = triggerTimer d"
  "GIMSK_PCIE (naptime d) = False"
  by (simp_all add: naptime_def Let_def)

lemma timeout_test:
  "word_of_nat sleepTimeout \<le> (w :: u32) \<longleftrightarrow> sleepTimeout \<le> unat w"
  by (simp add: word_le_nat_alt sleepTimeout_def)

text \<open>
  C7. \<^verbatim>\<open>naptime\<close> is called from the timer interrupt only, and only when the interrupt
  observes \<^verbatim>\<open>millis() - triggerTimer >= sleepTimeout\<close>: a run of the handler puts the
  device to sleep once if the observed idle time is at least 4000 ms, and otherwise (for
  instance at 3999 ms) leaves the whole state as it is; a pass of the main loop never puts
  the device to sleep.
\<close>

theorem sleep_only_after_timeout:
  "sleeps (TIMER1_COMPA now woken d)
     = (if sleepTimeout \<le> unat (now - triggerTimer d) then sleeps d + 1 else sleeps d)
   \<and> (unat (now - triggerTimer d) < sleepTimeout \<longrightarrow> TIMER1_COMPA now woken d = d)
   \<and> (loop pin t d = Some (Returned k d') \<longrightarrow> sleeps d' = sleeps d)"
proof (intro conjI impI)
  show "sleeps (TIMER1_COMPA now woken d)
     = (if sleepTimeout \<le> unat (now - triggerTimer d) then sleeps d + 1 else sleeps d)"
  proof (cases "sleepTimeout \<le> unat (now - triggerTimer d)")
    case True
    then have "events (TIMER1_COMPA now woken d) = events d @ [SleepMode]"
      by (simp add: TIMER1_COMPA_def timeout_test)
    with True show ?thesis by (simp add: sleeps_def)
  next
    case False
    then have "TIMER1_COMPA now woken d = d"
      by (simp add: TIMER1_COMPA_def timeout_test)
    with False show ?thesis by simp
  qed
next
  assume "unat (now - triggerTimer d) < sleepTimeout"
  then show "TIMER1_COMPA now woken d = d"
    by (simp add: TIMER1_COMPA_def timeout_test)
next
  assume "loop pin t d = Some (Returned k d')"
  then show "sleeps d' = sleeps d" by (rule sleeps_loop)
qed

lemma low_then_high_capture:
  "\<exists>k. listenForIR low_then_high initial =
     Some (Returned k (store_low 0 (store_high 0 (initial\<lparr>currentpulse := 0\<rparr>))))"
proof -
  let ?d2 = "store_low 0 (store_high 0 (initial\<lparr>currentpulse := 0\<rparr>))"
  have "\<exists>k'. 2 < k' \<and> k' \<le> 2 + (MAXPULSE - unat (0 :: u16))
      \<and> listen low_then_high HighLoop 2 0 ?d2 = Some (Returned k' ?d2)"
    by (rule listen_gives_up) (simp_all add: low_then_high_def level_def MAXPULSE_def)
  then show ?thesis
    unfolding low_then_high_first_pair by auto
qed

theorem sleep_only_after_timeout_witness:
  "sleeps (TIMER1_COMPA 4999 4999 (initial\<lparr>triggerTimer := 1000\<rparr>)) = 0
   \<and> TIMER1_COMPA 4999 4999 (initial\<lparr>triggerTimer := 1000\<rparr>) = initial\<lparr>triggerTimer := 1000\<rparr>
   \<and> sleeps (TIMER1_COMPA 5000 5002 (initial\<lparr>triggerTimer := 1000\<rparr>)) = 1
   \<and> (\<exists>k d'. loop low_then_high 0 initial = Some (Returned k d') \<and> sleeps d' = 0)"
proof -
  let ?d = "initial\<lparr>triggerTimer := 1000\<rparr>"
  let ?d2 = "store_low 0 (store_high 0 (initial\<lparr>currentpulse := 0\<rparr>))"
  obtain k where "listenForIR low_then_high initial = Some (Returned k ?d2)"
    using low_then_high_capture by blast
  then have l: "loop low_then_high 0 initial = Some (Returned k (after_capture 0 ?d2))"
    by (simp add: loop_def)
  have a: "sleeps (TIMER1_COMPA 4999 4999 ?d) = 0 \<and> TIMER1_COMPA 4999 4999 ?d = ?d"
    using sleep_only_after_timeout [of 4999 4999 ?d low_then_high 0 k "after_capture 0 ?d2"]
    by (simp add: sleepTimeout_def sleeps_def initial_def)
  have b: "sleeps (TIMER1_COMPA 5000 5002 ?d) = 1"
    using sleep_only_after_timeout [of 5000 5002 ?d low_then_high 0 k "after_capture 0 ?d2"]
    by (simp add: sleepTimeout_def sleeps_def initial_def)
  have c: "sleeps (after_capture 0 ?d2) = 0"
    using sleep_only_after_timeout [of 0 0 initial low_then_high 0 k "after_capture 0 ?d2"] l
    by (simp add: sleeps_def initial_def)
  show ?thesis using a b c l by (simp add: sleeps_def initial_def)
qed

text \<open>
  C8. Whenever the handler has put the device to sleep, that is after every return of
  \<^verbatim>\<open>sleep_mode()\<close> (\<^verbatim>\<open>naptime\<close> has no other caller), it leaves \<open>triggerTimer\<close> at the clock
  value read after waking: the idle time measured from there is 0. The pin-change
  interrupt is off again and the counter is 0.
\<close>

theorem wake_resets_triggerTimer:
  assumes "events (TIMER1_COMPA now woken d) \<noteq> events d"
  shows "events (TIMER1_COMPA now woken d) = events d @ [SleepMode]
       \<and> triggerTimer (TIMER1_COMPA now woken d) = woken
       \<and> unat (woken - triggerTimer (TIMER1_COMPA now woken d)) = 0
       \<and> \<not> GIMSK_PCIE (TIMER1_COMPA now woken d)
       \<and> trigger (TIMER1_COMPA now woken d) = 0"
  using assms by (simp add: TIMER1_COMPA_def split: if_splits)

theorem wake_resets_triggerTimer_witness:
  "events (TIMER1_COMPA 5000 5002 (initial\<lparr>triggerTimer := 1000\<rparr>)) = [SleepMode]
   \<and> triggerTimer (TIMER1_COMPA 5000 5002 (initial\<lparr>triggerTimer := 1000\<rparr>)) = 5002
   \<and> unat (5002 - triggerTimer (TIMER1_COMPA 5000 5002 (initial\<lparr>triggerTimer := 1000\<rparr>))) = 0"
proof -
  have "events (TIMER1_COMPA 5000 5002 (initial\<lparr>triggerTimer := 1000\<rparr>))
          \<noteq> events (initial\<lparr>triggerTimer := 1000\<rparr>)"
    by (simp add: TIMER1_COMPA_def timeout_test sleepTimeout_def)
  from wake_resets_triggerTimer [OF this] show ?thesis
    by (simp add: initial_def)
qed

end
